theory Spec2Isabelle
  imports Complex_Main
begin

section \<open>Auto-Guard: the synthetic data generators and their consumers\<close>

text \<open>
  The development embeds \<^verbatim>\<open>src/utils/dataGenerators.ts\<close> (the three generators), the
  state update of \<^verbatim>\<open>App.tsx\<close> (the traffic window) and the interval callback of the
  \<^verbatim>\<open>LogTable\<close> component (the log history).

  Conventions of the embedding.
  \<^item> A JavaScript string is the list of its UTF-16 code units.
  \<^item> A \<^verbatim>\<open>Date\<close> is its time value, the milliseconds since the epoch, an \<open>int\<close>.
    \<^verbatim>\<open>new Date()\<close> reads the clock, the parameter \<open>now\<close> of a call.
  \<^item> The volumes and the count are integers (\<open>int\<close>); a field that is undefined or null
    at run time is \<open>None\<close>, and so is a null or missing array element.
  \<^item> A number of the program that need not be whole is a double, held as the rational
    number it denotes. A decimal literal and a product denote the double nearest to the
    exact value, ties going to the even significand (\<open>roundDouble\<close>).
  \<^item> \<^verbatim>\<open>Math.random()\<close> is a supply \<open>rnd\<close> of numbers: the call number \<open>k\<close> of a run
    returns \<open>rnd k\<close>, by its contract a double that is at least 0 and less than 1. A
    function that draws takes the number of draws made so far and returns the new number
    with its result.
  \<^item> An array read out of range yields \<^verbatim>\<open>undefined\<close>, here \<open>None\<close>.
\<close>

subsection \<open>Doubles\<close>

text \<open>
  Rounding to the nearest whole number, a tie going to the even one.
\<close>

definition roundHalfEven :: "rat \<Rightarrow> int" where
  "roundHalfEven y =
     (let f = \<lfloor>y\<rfloor>; d = y - of_int f
      in if d < 1 / 2 then f else if 1 / 2 < d then f + 1 else if even f then f else f + 1)"

text \<open>
  The binade of a positive number \<open>x\<close> is the power of two \<open>2\<^sup>e\<close> with
  \<open>2\<^sup>e \<le> x < 2\<^sup>e\<^sup>+\<^sup>1\<close>, the exponent kept within the range -1022 to 1023 of the
  format: below \<open>2\<^sup>-\<^sup>1\<^sup>0\<^sup>2\<^sup>2\<close> the subnormal numbers share the spacing of the lowest
  binade. The search starts at 1 and counts its steps in \<open>i\<close>.
\<close>

function binadeUp :: "nat \<Rightarrow> rat \<Rightarrow> rat \<Rightarrow> rat" where
  "binadeUp i b x = (if i < 1023 \<and> 2 * b \<le> x then binadeUp (i + 1) (2 * b) x else b)"
  by pat_completeness auto
termination
  by (relation "measure (\<lambda>(i, b, x). 1023 - i)") auto

declare binadeUp.simps [simp del]

function binadeDown :: "nat \<Rightarrow> rat \<Rightarrow> rat \<Rightarrow> rat" where
  "binadeDown i b x = (if i < 1022 \<and> x < b then binadeDown (i + 1) (b / 2) x else b)"
  by pat_completeness auto
termination
  by (relation "measure (\<lambda>(i, b, x). 1022 - i)") auto

declare binadeDown.simps [simp del]

definition binade :: "rat \<Rightarrow> rat" where
  "binade x = (if 1 \<le> x then binadeUp 0 1 x else binadeDown 0 1 x)"

text \<open>
  Doubles of one binade are \<open>ulp\<close> apart, the binade divided by \<open>2\<^sup>5\<^sup>2\<close>. Rounding
  takes the nearest multiple of it, and a negative number is rounded as its opposite is.
  From \<open>2\<^sup>1\<^sup>0\<^sup>2\<^sup>4 - 2\<^sup>9\<^sup>7\<^sup>0\<close> on the program has \<^verbatim>\<open>Infinity\<close>, which a rational number
  cannot hold; no number rounded in this program comes near: they are decimal literals
  below 1 and products of a draw below 1 with a constant of at most 65536.
\<close>

definition ulp :: "rat \<Rightarrow> rat" where
  "ulp x = binade x / 2 ^ 52"

definition roundPositive :: "rat \<Rightarrow> rat" where
  "roundPositive x = of_int (roundHalfEven (x / ulp x)) * ulp x"

definition roundDouble :: "rat \<Rightarrow> rat" where
  "roundDouble x =
     (if x = 0 then 0 else if x < 0 then - roundPositive (- x) else roundPositive x)"

text \<open>A rational number in that range is a double when rounding leaves it as it is.\<close>

definition isDouble :: "rat \<Rightarrow> bool" where
  "isDouble x = (roundDouble x = x)"

subsection \<open>Strings, numbers, arrays\<close>

type_synonym jsstring = "nat list"

type_synonym rng = "nat \<Rightarrow> rat"

definition ascii :: "string \<Rightarrow> jsstring" where
  "ascii s = map of_char s"

fun digits :: "nat \<Rightarrow> jsstring" where
  "digits n = (if n < 10 then [48 + n] else digits (n div 10) @ [48 + n mod 10])"

declare digits.simps [simp del]

text \<open>The decimal text of an integer, as a template literal renders it.\<close>

definition numberToString :: "int \<Rightarrow> jsstring" where
  "numberToString i = (if i < 0 then 45 # digits (nat (- i)) else digits (nat i))"

text \<open>
  \<^verbatim>\<open>Math.floor(Math.random() * n)\<close>, with the draw number \<open>k\<close>: the product is a
  double, rounded before the floor is taken.
\<close>

definition randomFloor :: "rng \<Rightarrow> nat \<Rightarrow> int \<Rightarrow> int" where
  "randomFloor rnd k n = \<lfloor>roundDouble (rnd k * of_int n)\<rfloor>"

text \<open>\<^verbatim>\<open>xs[i]\<close>: \<^verbatim>\<open>undefined\<close> outside the array.\<close>

definition elemAt :: "'a list \<Rightarrow> int \<Rightarrow> 'a option" where
  "elemAt xs i = (if 0 \<le> i \<and> i < int (length xs) then Some (xs ! nat i) else None)"

text \<open>\<^verbatim>\<open>x || 0\<close> on a number that may be missing: 0 and a missing value are falsy.\<close>

definition orZero :: "int option \<Rightarrow> int" where
  "orZero x = (case x of None \<Rightarrow> 0 | Some v \<Rightarrow> if v = 0 then 0 else v)"

text \<open>\<^verbatim>\<open>xs.slice(-n)\<close>, the last \<open>n\<close> elements, and \<^verbatim>\<open>xs.slice(0, n)\<close>, the first \<open>n\<close>.\<close>

definition sliceLast :: "nat \<Rightarrow> 'a list \<Rightarrow> 'a list" where
  "sliceLast n xs = drop (length xs - n) xs"

definition sliceFirst :: "nat \<Rightarrow> 'a list \<Rightarrow> 'a list" where
  "sliceFirst n xs = take n xs"

subsection \<open>Records\<close>

record traffic =
  time :: "int option"
  inbound :: "int option"
  outbound :: "int option"

record logEntry =
  timestamp :: int
  sourceIP :: jsstring
  sourcePort :: int
  destinationIP :: jsstring
  destinationPort :: int
  protocol :: "jsstring option"
  type :: "jsstring option"
  trafficVolume :: int

record flow =
  start :: "jsstring option"
  end' :: "jsstring option"

subsection \<open>generateTrafficData\<close>

function trafficLoop ::
  "int \<Rightarrow> int \<Rightarrow> rng \<Rightarrow> nat \<Rightarrow> nat \<Rightarrow> traffic list \<Rightarrow> traffic list \<times> nat" where
  "trafficLoop now count rnd i k data =
     (if int i < count then
        trafficLoop now count rnd (i + 1) (k + 2)
          (data @ [\<lparr>time = Some (now - (count - 1 - int i) * 2000),
                    inbound = Some (randomFloor rnd k 30),
                    outbound = Some (randomFloor rnd (k + 1) 30)\<rparr>])
      else (data, k))"
  by pat_completeness auto
termination
  by (relation "measure (\<lambda>(now, count, rnd, i, k, data). nat (count - int i))") auto

declare trafficLoop.simps [simp del]

text \<open>The parameter \<^verbatim>\<open>count = 30\<close>: an argument left out is \<open>None\<close>.\<close>

definition generateTrafficData ::
  "int \<Rightarrow> rng \<Rightarrow> nat \<Rightarrow> int option \<Rightarrow> traffic list \<times> nat" where
  "generateTrafficData now rnd k count =
     trafficLoop now (case count of None \<Rightarrow> 30 | Some c \<Rightarrow> c) rnd 0 k []"

subsection \<open>generateLogData\<close>

definition protocols :: "jsstring list" where
  "protocols = map ascii [''TCP'', ''UDP'', ''HTTP'', ''HTTPS'', ''FTP'', ''SMTP'', ''DNS'']"

text \<open>The two Hangul syllables U+C545 U+C131 that every malicious type starts with.\<close>

definition malicious :: "string \<Rightarrow> jsstring" where
  "malicious s = [0xC545, 0xC131] @ ascii s"

definition maliciousTypes :: "jsstring list" where
  "maliciousTypes = map malicious
     [''(DDoS)'', ''(SQL Injection)'', ''(XSS)'', ''(Port Scan)'', ''(Brute Force)'',
      ''(Malware)'', ''(Phishing)'', ''(Command Injection)'', ''(File Inclusion)'']"

text \<open>The type of a normal entry, U+C815 U+C0C1, and of a new pattern.\<close>

definition normalType :: jsstring where
  "normalType = [0xC815, 0xC0C1]"

definition newPatternType :: jsstring where
  "newPatternType = [0xC0C8, 0xB85C, 0xC6B4, 0x20, 0xD328, 0xD134]"

text \<open>
  The choice of the type: one draw, and a second one for a malicious type. The literals
  \<^verbatim>\<open>0.6\<close> and \<^verbatim>\<open>0.9\<close> are the doubles nearest to 6/10 and 9/10.
\<close>

definition chooseType :: "rng \<Rightarrow> nat \<Rightarrow> jsstring option \<times> nat" where
  "chooseType rnd k =
     (let randomValue = rnd k in
      if randomValue < roundDouble (6 / 10) then (Some normalType, k + 1)
      else if randomValue < roundDouble (9 / 10) then
        (elemAt maliciousTypes (randomFloor rnd (k + 1) (int (length maliciousTypes))), k + 2)
      else (Some newPatternType, k + 1))"

text \<open>A dotted quad from four draws, the first of them draw \<open>k\<close>.\<close>

definition randomIP :: "rng \<Rightarrow> nat \<Rightarrow> jsstring" where
  "randomIP rnd k =
     numberToString (randomFloor rnd k 256) @ [46] @
     numberToString (randomFloor rnd (k + 1) 256) @ [46] @
     numberToString (randomFloor rnd (k + 2) 256) @ [46] @
     numberToString (randomFloor rnd (k + 3) 256)"

text \<open>One pass of the inner loop's body: the type, then the fields in the order written.\<close>

definition makeLog :: "int \<Rightarrow> rng \<Rightarrow> nat \<Rightarrow> traffic \<Rightarrow> logEntry \<times> nat" where
  "makeLog now rnd k t =
     (let (ty, k1) = chooseType rnd k in
      (\<lparr>timestamp = (case time t of None \<Rightarrow> now | Some d \<Rightarrow> d),
        sourceIP = randomIP rnd k1,
        sourcePort = randomFloor rnd (k1 + 4) 65536,
        destinationIP = randomIP rnd (k1 + 5),
        destinationPort = randomFloor rnd (k1 + 9) 65536,
        protocol = elemAt protocols (randomFloor rnd (k1 + 10) (int (length protocols))),
        type = ty,
        trafficVolume = randomFloor rnd (k1 + 11) 1000\<rparr>, k1 + 12))"

function logsLoop ::
  "int \<Rightarrow> rng \<Rightarrow> traffic \<Rightarrow> int \<Rightarrow> nat \<Rightarrow> nat \<Rightarrow> logEntry list \<Rightarrow> logEntry list \<times> nat" where
  "logsLoop now rnd t totalTraffic i k logs =
     (if int i < totalTraffic then
        logsLoop now rnd t totalTraffic (i + 1) (snd (makeLog now rnd k t))
          (logs @ [fst (makeLog now rnd k t)])
      else (logs, k))"
  by pat_completeness auto
termination
  by (relation "measure (\<lambda>(now, rnd, t, totalTraffic, i, k, logs). nat (totalTraffic - int i))")
    auto

declare logsLoop.simps [simp del]

text \<open>The reducer over \<^verbatim>\<open>trafficData\<close>, from the accumulator \<open>acc\<close>.\<close>

fun reduceLogs ::
  "int \<Rightarrow> rng \<Rightarrow> nat \<Rightarrow> logEntry list \<Rightarrow> traffic option list \<Rightarrow> logEntry list \<times> nat" where
  "reduceLogs now rnd k acc [] = (acc, k)"
| "reduceLogs now rnd k acc (None # ts) = reduceLogs now rnd k acc ts"
| "reduceLogs now rnd k acc (Some t # ts) =
     (let totalTraffic = orZero (inbound t) + orZero (outbound t);
          r = logsLoop now rnd t totalTraffic 0 k []
      in reduceLogs now rnd (snd r) (acc @ fst r) ts)"

text \<open>
  The parameter \<^verbatim>\<open>existingLogs = []\<close>: an argument left out or null is \<open>None\<close>, and
  \<^verbatim>\<open>existingLogs || []\<close> reads it as the empty array.
\<close>

definition generateLogData ::
  "int \<Rightarrow> rng \<Rightarrow> nat \<Rightarrow> traffic option list \<Rightarrow> logEntry list option \<Rightarrow> logEntry list \<times> nat"
  where
  "generateLogData now rnd k trafficData existingLogs =
     (let r = reduceLogs now rnd k [] trafficData
      in ((case existingLogs of None \<Rightarrow> [] | Some l \<Rightarrow> l) @ fst r, snd r))"

subsection \<open>generateFlowData\<close>

definition countries :: "jsstring list" where
  "countries = map ascii
     [''KR'', ''US'', ''CN'', ''JP'', ''UK'', ''DE'', ''FR'', ''IN'', ''BR'', ''AU'']"

function flowLoop :: "rng \<Rightarrow> nat \<Rightarrow> nat \<Rightarrow> flow list \<Rightarrow> flow list \<times> nat" where
  "flowLoop rnd i k flows =
     (if i < 50 then
        flowLoop rnd (i + 1) (k + 2)
          (flows @ [\<lparr>start = elemAt countries (randomFloor rnd k (int (length countries))),
                     end' = elemAt countries (randomFloor rnd (k + 1) (int (length countries)))\<rparr>])
      else (flows, k))"
  by pat_completeness auto
termination
  by (relation "measure (\<lambda>(rnd, i, k, flows). 50 - i)") auto

declare flowLoop.simps [simp del]

definition generateFlowData :: "rng \<Rightarrow> nat \<Rightarrow> flow list \<times> nat" where
  "generateFlowData rnd k = flowLoop rnd 0 k []"

subsection \<open>The traffic window of App and the log history of LogTable\<close>

text \<open>The type guard of the filter in \<^verbatim>\<open>updateTrafficData\<close>.\<close>

definition isTraffic :: "traffic option \<Rightarrow> bool" where
  "isTraffic d =
     (case d of None \<Rightarrow> False
      | Some t \<Rightarrow> inbound t \<noteq> None \<and> outbound t \<noteq> None \<and> time t \<noteq> None)"

text \<open>
  \<^verbatim>\<open>updateTrafficData\<close> as a function of the previous window: the new sample is element 0
  of a default call of the generator, and the state is left as it is when there is none.
\<close>

definition updateTrafficData ::
  "int \<Rightarrow> rng \<Rightarrow> nat \<Rightarrow> traffic option list \<Rightarrow> traffic option list" where
  "updateTrafficData now rnd k prevData =
     (case elemAt (fst (generateTrafficData now rnd k None)) 0 of
        None \<Rightarrow> prevData
      | Some newData \<Rightarrow> filter isTraffic (sliceLast 29 prevData @ [Some newData]))"

text \<open>The interval callback of \<^verbatim>\<open>LogTable\<close> as a function of the previous history.\<close>

definition updateLogs ::
  "int \<Rightarrow> rng \<Rightarrow> nat \<Rightarrow> traffic option list \<Rightarrow> logEntry list \<Rightarrow> logEntry list" where
  "updateLogs now rnd k trafficData prevLogs =
     (let newLogs = fst (generateLogData now rnd k (sliceLast 1 trafficData) (Some []))
      in if length newLogs > 0 then sliceFirst 100 (newLogs @ prevLogs) else prevLogs)"

text \<open>
  A run of the timers: every tick comes with its clock reading, its supply of draws and,
  for the log table, the traffic window it sees. Both states start empty.
\<close>

type_synonym tick = "int \<times> rng \<times> nat"

fun trafficRun :: "tick list \<Rightarrow> traffic option list \<Rightarrow> traffic option list" where
  "trafficRun [] s = s"
| "trafficRun ((now, rnd, k) # ts) s = trafficRun ts (updateTrafficData now rnd k s)"

fun logRun :: "(tick \<times> traffic option list) list \<Rightarrow> logEntry list \<Rightarrow> logEntry list" where
  "logRun [] s = s"
| "logRun (((now, rnd, k), trafficData) # ts) s =
     logRun ts (updateLogs now rnd k trafficData s)"

section \<open>Properties\<close>

subsection \<open>Shared facts\<close>

lemma floor_numeral_quotient:
  "\<lfloor>numeral a / numeral b :: rat\<rfloor> = numeral a div numeral b"
  using floor_divide_of_int_eq [of "numeral a" "numeral b", where ?'a = rat] by simp

lemma roundHalfEven_bounds:
  "y - 1 / 2 \<le> of_int (roundHalfEven y) \<and> of_int (roundHalfEven y) \<le> y + 1 / 2"
proof -
  define f where "f = \<lfloor>y\<rfloor>"
  define d where "d = y - of_int f"
  have d: "0 \<le> d" "d < 1"
    unfolding d_def f_def by linarith+
  have y: "y = of_int f + d"
    by (simp add: d_def)
  have rhe: "roundHalfEven y =
      (if d < 1 / 2 then f else if 1 / 2 < d then f + 1 else if even f then f else f + 1)"
    by (simp add: roundHalfEven_def Let_def f_def d_def)
  have low: "of_int (roundHalfEven y) = (of_int f :: rat) \<Longrightarrow> d \<le> 1 / 2 \<Longrightarrow> ?thesis"
    using d y by linarith
  have high: "of_int (roundHalfEven y) = (of_int f + 1 :: rat) \<Longrightarrow> 1 / 2 \<le> d \<Longrightarrow> ?thesis"
    using d y by linarith
  consider "d < 1 / 2" | "1 / 2 < d" | "d = 1 / 2"
    by linarith
  then show ?thesis
  proof cases
    case 1
    then have "of_int (roundHalfEven y) = (of_int f :: rat)" by (simp add: rhe)
    then show ?thesis using 1 by (intro low) simp_all
  next
    case 2
    then have "of_int (roundHalfEven y) = (of_int f + 1 :: rat)" by (simp add: rhe)
    then show ?thesis using 2 by (intro high) simp_all
  next
    case 3
    then have "of_int (roundHalfEven y) = (of_int f :: rat) \<or>
               of_int (roundHalfEven y) = (of_int f + 1 :: rat)"
      by (simp add: rhe)
    then show ?thesis using 3 low high by auto
  qed
qed

lemma roundHalfEven_nonneg: "0 \<le> y \<Longrightarrow> 0 \<le> roundHalfEven y"
  by (auto simp: roundHalfEven_def Let_def)

lemma binadeUp_pos: "0 < b \<Longrightarrow> 0 < binadeUp i b x"
proof (induction i b x rule: binadeUp.induct)
  case (1 i b x)
  show ?case
  proof (cases "i < 1023 \<and> 2 * b \<le> x")
    case True
    have "0 < binadeUp (i + 1) (2 * b) x"
      using True "1.prems" by (intro "1.IH") simp_all
    then show ?thesis
      using True by (subst binadeUp.simps) simp
  next
    case False
    then show ?thesis
      using "1.prems" by (subst binadeUp.simps) auto
  qed
qed

lemma binadeUp_le: "b \<le> x \<Longrightarrow> binadeUp i b x \<le> x"
proof (induction i b x rule: binadeUp.induct)
  case (1 i b x)
  show ?case
  proof (cases "i < 1023 \<and> 2 * b \<le> x")
    case True
    have "binadeUp (i + 1) (2 * b) x \<le> x"
      using True by (intro "1.IH") simp_all
    then show ?thesis
      using True by (subst binadeUp.simps) simp
  next
    case False
    then show ?thesis
      using "1.prems" by (subst binadeUp.simps) auto
  qed
qed

lemma binadeDown_pos: "0 < b \<Longrightarrow> 0 < binadeDown i b x"
proof (induction i b x rule: binadeDown.induct)
  case (1 i b x)
  show ?case
  proof (cases "i < 1022 \<and> x < b")
    case True
    have "0 < binadeDown (i + 1) (b / 2) x"
      using True "1.prems" by (intro "1.IH") simp_all
    then show ?thesis
      using True by (subst binadeDown.simps) simp
  next
    case False
    then show ?thesis
      using "1.prems" by (subst binadeDown.simps) auto
  qed
qed

lemma binadeDown_le: "0 < b \<Longrightarrow> binadeDown i b x \<le> b"
proof (induction i b x rule: binadeDown.induct)
  case (1 i b x)
  show ?case
  proof (cases "i < 1022 \<and> x < b")
    case True
    have "binadeDown (i + 1) (b / 2) x \<le> b / 2"
      using True "1.prems" by (intro "1.IH") simp_all
    then have "binadeDown (i + 1) (b / 2) x \<le> b"
      using "1.prems" by simp
    then show ?thesis
      using True by (subst binadeDown.simps) simp
  next
    case False
    then show ?thesis
      by (subst binadeDown.simps) auto
  qed
qed

lemma binade_pos: "0 < binade x"
  by (simp add: binade_def binadeUp_pos binadeDown_pos)

text \<open>Above 1 the binade is below the number; below 1 it is at most a half.\<close>

lemma binade_cases: "binade x \<le> x \<or> (x < 1 \<and> binade x \<le> 1 / 2)"
proof (cases "1 \<le> x")
  case True
  then show ?thesis
    by (simp add: binade_def binadeUp_le)
next
  case False
  then have "binadeDown 0 1 x = binadeDown 1 (1 / 2) x"
    by (subst binadeDown.simps) simp
  moreover have "binadeDown 1 (1 / 2) x \<le> 1 / 2"
    by (rule binadeDown_le) simp
  ultimately show ?thesis
    using False by (simp add: binade_def)
qed

lemma binade_upper_half: "1 / 2 \<le> x \<Longrightarrow> x < 1 \<Longrightarrow> binade x = 1 / 2"
proof -
  assume a: "1 / 2 \<le> x" "x < 1"
  have "binadeDown 0 1 x = binadeDown 1 (1 / 2) x"
    using a by (subst binadeDown.simps) simp
  also have "\<dots> = 1 / 2"
    using a by (subst binadeDown.simps) simp
  finally show ?thesis
    using a by (simp add: binade_def)
qed

lemma roundPositive_nonneg: "0 \<le> x \<Longrightarrow> 0 \<le> roundPositive x"
proof -
  assume "0 \<le> x"
  moreover have "0 < ulp x" by (simp add: ulp_def binade_pos)
  ultimately have "0 \<le> roundHalfEven (x / ulp x)"
    by (intro roundHalfEven_nonneg) simp
  then show ?thesis
    using \<open>0 < ulp x\<close> by (simp add: roundPositive_def)
qed

lemma roundPositive_upper: "roundPositive x \<le> x + binade x / 2 ^ 53"
proof -
  have u: "0 < ulp x" by (simp add: ulp_def binade_pos)
  have "of_int (roundHalfEven (x / ulp x)) \<le> x / ulp x + 1 / 2"
    using roundHalfEven_bounds by blast
  then have "of_int (roundHalfEven (x / ulp x)) * ulp x \<le> (x / ulp x + 1 / 2) * ulp x"
    using u by (simp only: mult_le_cancel_right_pos)
  also have "\<dots> = x + ulp x / 2"
    using u by (simp add: field_simps)
  also have "ulp x / 2 = binade x / 2 ^ 53"
    by (simp add: ulp_def)
  finally show ?thesis
    by (simp add: roundPositive_def)
qed

text \<open>The largest double below 1 is \<open>1 - 2\<^sup>-\<^sup>5\<^sup>3\<close>.\<close>

lemma isDouble_below_one:
  assumes "isDouble r" "r < 1"
  shows "r \<le> 1 - 1 / 2 ^ 53"
proof (cases "r < 1 / 2")
  case True
  then show ?thesis by simp
next
  case False
  then have half: "1 / 2 \<le> r" by simp
  then have pos: "r \<noteq> 0" "\<not> r < 0" by simp_all
  have u: "ulp r = 1 / 2 ^ 53"
    using half assms(2) by (simp add: ulp_def binade_upper_half)
  define m where "m = roundHalfEven (r * 2 ^ 53)"
  have "roundDouble r = of_int m / 2 ^ 53"
    using pos by (simp add: roundDouble_def roundPositive_def u m_def)
  then have r: "r = of_int m / 2 ^ 53"
    using assms(1) by (simp add: isDouble_def)
  then have "of_int m / 2 ^ 53 < (1::rat)"
    using assms(2) by simp
  then have "(of_int m :: rat) < 2 ^ 53"
    by (simp add: field_simps)
  then have "(of_int m :: rat) < of_int (2 ^ 53)"
    by simp
  then have "m < 2 ^ 53"
    by (simp only: of_int_less_iff)
  then have "m \<le> 2 ^ 53 - 1" by simp
  then have "(of_int m :: rat) \<le> of_int (2 ^ 53 - 1)"
    by (simp only: of_int_le_iff)
  then have "(of_int m :: rat) \<le> 2 ^ 53 - 1" by simp
  then have "of_int m / 2 ^ 53 \<le> ((2 ^ 53 - 1) / 2 ^ 53 :: rat)"
    by (simp add: divide_right_mono)
  then show ?thesis
    by (subst r) (simp add: field_simps)
qed

text \<open>
  The product of a double below 1 with a number of at least 1, rounded, stays below that
  number: rounding adds at most half an ulp, less than what the draw lacks to 1.
\<close>

lemma roundDouble_product:
  assumes r: "0 \<le> r" "r \<le> 1 - 1 / 2 ^ 53" and n: "1 \<le> n"
  shows "0 \<le> roundDouble (r * n) \<and> roundDouble (r * n) < n"
proof (cases "r * n = 0")
  case True
  then show ?thesis using n by (simp add: roundDouble_def)
next
  case False
  let ?c = "1 / 2 ^ 53 :: rat"
  have x: "0 \<le> r * n" using r(1) n by simp
  then have rd: "roundDouble (r * n) = roundPositive (r * n)"
    using False by (simp add: roundDouble_def)
  have up: "roundPositive (r * n) \<le> r * n + binade (r * n) * ?c"
    using roundPositive_upper [of "r * n"] by simp
  have "roundPositive (r * n) < n"
  proof (cases "binade (r * n) \<le> r * n")
    case True
    then have "binade (r * n) * ?c \<le> r * n * ?c"
      by (intro mult_right_mono) simp_all
    then have "roundPositive (r * n) \<le> r * n + r * n * ?c"
      using up by linarith
    also have "\<dots> = r * (n * (1 + ?c))"
      by (simp add: algebra_simps)
    also have "\<dots> \<le> (1 - ?c) * (n * (1 + ?c))"
      using r(2) n by (intro mult_right_mono) simp_all
    also have "\<dots> = n * (1 - ?c * ?c)"
      by (simp add: algebra_simps)
    also have "\<dots> < n * 1"
      using n by (intro mult_strict_left_mono) simp_all
    finally show ?thesis by simp
  next
    case False
    then have below: "r * n < binade (r * n)" by simp
    then have half: "binade (r * n) \<le> 1 / 2"
      using binade_cases [of "r * n"] by linarith
    have "binade (r * n) * ?c \<le> 1 / 2 * ?c"
      using half by (intro mult_right_mono) simp_all
    then have "roundPositive (r * n) < 1 / 2 + 1 / 2 * ?c"
      using up below half by linarith
    also have "\<dots> < 1" by simp
    finally show ?thesis using n by linarith
  qed
  then show ?thesis
    using x by (simp add: rd roundPositive_nonneg)
qed

text \<open>Evaluation of the rounding at a given number.\<close>

lemmas round_eval = roundDouble_def roundPositive_def ulp_def binade_def binadeUp.simps
  binadeDown.simps roundHalfEven_def Let_def floor_numeral_quotient

lemma roundDouble_six_tenths: "roundDouble (6 / 10) = 5404319552844595 / 2 ^ 53"
  by (simp add: round_eval)

lemma roundDouble_nine_tenths: "roundDouble (9 / 10) = 8106479329266893 / 2 ^ 53"
  by (simp add: round_eval)

lemma roundDouble_zero: "roundDouble 0 = 0"
  by (simp add: roundDouble_def)

text \<open>The same two facts on the terms that the simplifier meets.\<close>

lemma thresholds:
  "roundDouble (3 / 5) = 5404319552844595 / 9007199254740992"
  "roundDouble (9 / 10) = 8106479329266893 / 9007199254740992"
  by (simp_all add: round_eval)

text \<open>
  The rounding of the product shows at draws just below a multiple of \<open>1 / n\<close>: the
  exact product lies below a whole number and the double product is that number. So it
  is at \<open>2552039788843281 / 2\<^sup>5\<^sup>2\<close> with 30 (17, not 16), at the double nearest to 0.7
  with 10 (7, not 6) and at the double nearest to 4/7 with 7 (4, not 3).
\<close>

lemma randomFloor_rounds_product:
  "randomFloor (\<lambda>_. 2552039788843281 / 2 ^ 52) 0 30 = 17"
  "\<lfloor>2552039788843281 / 2 ^ 52 * 30 :: rat\<rfloor> = 16"
  "randomFloor (\<lambda>_. roundDouble (7 / 10)) 0 10 = 7"
  "\<lfloor>roundDouble (7 / 10) * 10\<rfloor> = 6"
  "randomFloor (\<lambda>_. roundDouble (4 / 7)) 0 7 = 4"
  "\<lfloor>roundDouble (4 / 7) * 7\<rfloor> = 3"
  by (simp_all add: randomFloor_def round_eval)

lemma randomFloor_range:
  assumes "isDouble (rnd k)" "0 \<le> rnd k" "rnd k < 1" "0 < n"
  shows "0 \<le> randomFloor rnd k n \<and> randomFloor rnd k n < n"
proof -
  have "rnd k \<le> 1 - 1 / 2 ^ 53"
    using assms(1, 3) by (rule isDouble_below_one)
  moreover have "(1::rat) \<le> of_int n"
    using assms(4) by simp
  ultimately have "0 \<le> roundDouble (rnd k * of_int n) \<and>
      roundDouble (rnd k * of_int n) < of_int n"
    using assms(2) by (intro roundDouble_product)
  then show ?thesis
    by (simp add: randomFloor_def floor_less_iff)
qed

lemma trafficLoop_closed:
  "trafficLoop now count rnd i k data =
     (data @ map (\<lambda>m. \<lparr>time = Some (now - (count - 1 - int (i + m)) * 2000),
                        inbound = Some (randomFloor rnd (k + 2 * m) 30),
                        outbound = Some (randomFloor rnd (k + 2 * m + 1) 30)\<rparr>)
               [0..<nat count - i],
      k + 2 * (nat count - i))"
proof (induction now count rnd i k data rule: trafficLoop.induct)
  case (1 now count rnd i k data)
  let ?x = "\<lparr>time = Some (now - (count - 1 - int i) * 2000),
             inbound = Some (randomFloor rnd k 30),
             outbound = Some (randomFloor rnd (k + 1) 30)\<rparr>"
  let ?f = "\<lambda>i k m. \<lparr>time = Some (now - (count - 1 - int (i + m)) * 2000),
                     inbound = Some (randomFloor rnd (k + 2 * m) 30),
                     outbound = Some (randomFloor rnd (k + 2 * m + 1) 30)\<rparr>"
  show ?case
  proof (cases "int i < count")
    case True
    then have len: "nat count - i = Suc (nat count - (i + 1))" by simp
    have "trafficLoop now count rnd i k data =
            trafficLoop now count rnd (i + 1) (k + 2) (data @ [?x])"
      using True by (subst trafficLoop.simps) simp
    also have "\<dots> = ((data @ [?x]) @ map (?f (i + 1) (k + 2)) [0..<nat count - (i + 1)],
                      k + 2 + 2 * (nat count - (i + 1)))"
      using 1 [OF True] .
    also have "\<dots> = (data @ map (?f i k) [0..<nat count - i], k + 2 * (nat count - i))"
      by (simp only: len map_upt_Suc) simp
    finally show ?thesis .
  next
    case False
    then show ?thesis
      by (subst trafficLoop.simps) simp
  qed
qed

lemma generateTrafficData_length:
  "length (fst (generateTrafficData now rnd k count)) =
     nat (case count of None \<Rightarrow> 30 | Some c \<Rightarrow> c)"
  by (simp add: generateTrafficData_def trafficLoop_closed)

lemma generateTrafficData_nth:
  assumes "i < length (fst (generateTrafficData now rnd k (Some count)))"
  shows "fst (generateTrafficData now rnd k (Some count)) ! i =
           \<lparr>time = Some (now - (count - 1 - int i) * 2000),
            inbound = Some (randomFloor rnd (k + 2 * i) 30),
            outbound = Some (randomFloor rnd (k + 2 * i + 1) 30)\<rparr>"
  using assms by (simp add: generateTrafficData_def trafficLoop_closed)

lemma flowLoop_closed:
  "flowLoop rnd i k flows =
     (flows @ map (\<lambda>m. \<lparr>start = elemAt countries (randomFloor rnd (k + 2 * m) (int (length countries))),
                         end' = elemAt countries (randomFloor rnd (k + 2 * m + 1) (int (length countries)))\<rparr>)
               [0..<50 - i],
      k + 2 * (50 - i))"
proof (induction rnd i k flows rule: flowLoop.induct)
  case (1 rnd i k flows)
  let ?x = "\<lparr>start = elemAt countries (randomFloor rnd k (int (length countries))),
             end' = elemAt countries (randomFloor rnd (k + 1) (int (length countries)))\<rparr>"
  let ?f = "\<lambda>k m. \<lparr>start = elemAt countries (randomFloor rnd (k + 2 * m) (int (length countries))),
                   end' = elemAt countries (randomFloor rnd (k + 2 * m + 1) (int (length countries)))\<rparr>"
  show ?case
  proof (cases "i < 50")
    case True
    then have len: "50 - i = Suc (50 - (i + 1))" by simp
    have "flowLoop rnd i k flows = flowLoop rnd (i + 1) (k + 2) (flows @ [?x])"
      using True by (subst flowLoop.simps) simp
    also have "\<dots> = ((flows @ [?x]) @ map (?f (k + 2)) [0..<50 - (i + 1)],
                      k + 2 + 2 * (50 - (i + 1)))"
      using 1 [OF True] .
    also have "\<dots> = (flows @ map (?f k) [0..<50 - i], k + 2 * (50 - i))"
      by (simp only: len map_upt_Suc) simp
    finally show ?thesis .
  next
    case False
    then show ?thesis
      by (subst flowLoop.simps) simp
  qed
qed

lemma length_countries: "length countries = 10"
  by (simp add: countries_def)

lemma elemAt_member:
  "0 \<le> i \<Longrightarrow> i < int (length xs) \<Longrightarrow> \<exists>x. elemAt xs i = Some x \<and> x \<in> set xs"
  by (simp add: elemAt_def)

lemma makeLog_draws: "snd (makeLog now rnd k t) = snd (chooseType rnd k) + 12"
  by (simp add: makeLog_def split: prod.splits)

lemma makeLog_type: "type (fst (makeLog now rnd k t)) = fst (chooseType rnd k)"
  by (simp add: makeLog_def split: prod.splits)

lemma logsLoop_length:
  "length (fst (logsLoop now rnd t totalTraffic i k logs)) =
     length logs + nat (totalTraffic - int i)"
proof (induction now rnd t totalTraffic i k logs rule: logsLoop.induct)
  case (1 now rnd t totalTraffic i k logs)
  show ?case
  proof (cases "int i < totalTraffic")
    case True
    have "length (fst (logsLoop now rnd t totalTraffic i k logs)) =
            length (fst (logsLoop now rnd t totalTraffic (i + 1) (snd (makeLog now rnd k t))
              (logs @ [fst (makeLog now rnd k t)])))"
      using True by (subst logsLoop.simps) simp
    also have "\<dots> = length (logs @ [fst (makeLog now rnd k t)]) + nat (totalTraffic - int (i + 1))"
      using 1 [OF True] .
    also have "\<dots> = length logs + nat (totalTraffic - int i)"
      using True by simp
    finally show ?thesis .
  next
    case False
    then show ?thesis
      by (subst logsLoop.simps) simp
  qed
qed


lemma makeLog_time_only:
  "time t = time t' \<Longrightarrow> makeLog now rnd k t = makeLog now rnd k t'"
  by (simp add: makeLog_def)

lemma logsLoop_time_only:
  "time t = time t' \<Longrightarrow>
     logsLoop now rnd t totalTraffic i k logs = logsLoop now rnd t' totalTraffic i k logs"
proof (induction now rnd t totalTraffic i k logs rule: logsLoop.induct)
  case (1 now rnd t totalTraffic i k logs)
  have mk: "makeLog now rnd k t = makeLog now rnd k t'"
    using "1.prems" by (rule makeLog_time_only)
  show ?case
  proof (cases "int i < totalTraffic")
    case True
    have "logsLoop now rnd t totalTraffic i k logs =
            logsLoop now rnd t totalTraffic (i + 1) (snd (makeLog now rnd k t))
              (logs @ [fst (makeLog now rnd k t)])"
      using True by (subst logsLoop.simps) simp
    also have "\<dots> = logsLoop now rnd t' totalTraffic (i + 1) (snd (makeLog now rnd k t))
              (logs @ [fst (makeLog now rnd k t)])"
      using "1.IH" [OF True "1.prems"] .
    also have "\<dots> = logsLoop now rnd t' totalTraffic i k logs"
      using True by (subst (2) logsLoop.simps) (simp add: mk)
    finally show ?thesis .
  next
    case False
    then show ?thesis
      by (simp add: logsLoop.simps [of now rnd t] logsLoop.simps [of now rnd t'])
  qed
qed

lemma logsLoop_draws_mono:
  "k \<le> snd (logsLoop now rnd t totalTraffic i k logs)"
proof (induction now rnd t totalTraffic i k logs rule: logsLoop.induct)
  case (1 now rnd t totalTraffic i k logs)
  show ?case
  proof (cases "int i < totalTraffic")
    case True
    have "snd (logsLoop now rnd t totalTraffic i k logs) =
            snd (logsLoop now rnd t totalTraffic (i + 1) (snd (makeLog now rnd k t))
              (logs @ [fst (makeLog now rnd k t)]))"
      using True by (subst logsLoop.simps) simp
    moreover have "snd (makeLog now rnd k t) \<le>
        snd (logsLoop now rnd t totalTraffic (i + 1) (snd (makeLog now rnd k t))
              (logs @ [fst (makeLog now rnd k t)]))"
      using 1 [OF True] .
    moreover have "k \<le> snd (makeLog now rnd k t)"
      by (simp add: makeLog_draws chooseType_def Let_def)
    ultimately show ?thesis by simp
  next
    case False
    then show ?thesis
      by (subst logsLoop.simps) simp
  qed
qed

lemma logsLoop_members:
  "e \<in> set (fst (logsLoop now rnd t totalTraffic i k logs)) \<Longrightarrow>
     e \<in> set logs \<or> (\<exists>j. k \<le> j \<and> e = fst (makeLog now rnd j t))"
proof (induction now rnd t totalTraffic i k logs rule: logsLoop.induct)
  case (1 now rnd t totalTraffic i k logs)
  show ?case
  proof (cases "int i < totalTraffic")
    case True
    have "fst (logsLoop now rnd t totalTraffic i k logs) =
            fst (logsLoop now rnd t totalTraffic (i + 1) (snd (makeLog now rnd k t))
              (logs @ [fst (makeLog now rnd k t)]))"
      using True by (subst logsLoop.simps) simp
    then have "e \<in> set (fst (logsLoop now rnd t totalTraffic (i + 1) (snd (makeLog now rnd k t))
              (logs @ [fst (makeLog now rnd k t)])))"
      using "1.prems" by simp
    then have "e \<in> set (logs @ [fst (makeLog now rnd k t)]) \<or>
        (\<exists>j. snd (makeLog now rnd k t) \<le> j \<and> e = fst (makeLog now rnd j t))"
      using "1.IH" [OF True] by blast
    moreover have "k \<le> snd (makeLog now rnd k t)"
      by (simp add: makeLog_draws chooseType_def Let_def)
    ultimately show ?thesis
      by (auto intro: order_trans)
  next
    case False
    then have "fst (logsLoop now rnd t totalTraffic i k logs) = logs"
      by (subst logsLoop.simps) simp
    then show ?thesis
      using "1.prems" by simp
  qed
qed


lemma reduceLogs_acc_append:
  "reduceLogs now rnd k (acc @ acc') ts =
     (acc @ fst (reduceLogs now rnd k acc' ts), snd (reduceLogs now rnd k acc' ts))"
proof (induction ts arbitrary: k acc')
  case Nil
  show ?case by simp
next
  case (Cons x ts)
  show ?case
  proof (cases x)
    case None
    then show ?thesis using Cons [of k acc'] by simp
  next
    case (Some t)
    let ?r = "logsLoop now rnd t (orZero (inbound t) + orZero (outbound t)) 0 k []"
    show ?thesis
      using Cons [of "snd ?r" "acc' @ fst ?r"] Some by (simp add: Let_def)
  qed
qed

lemma reduceLogs_acc:
  "reduceLogs now rnd k acc ts =
     (acc @ fst (reduceLogs now rnd k [] ts), snd (reduceLogs now rnd k [] ts))"
  using reduceLogs_acc_append [of now rnd k acc "[]" ts] by simp

lemma reduceLogs_append:
  "reduceLogs now rnd k acc (ts @ us) =
     reduceLogs now rnd (snd (reduceLogs now rnd k acc ts)) (fst (reduceLogs now rnd k acc ts)) us"
proof (induction ts arbitrary: k acc)
  case Nil
  show ?case by simp
next
  case (Cons x ts)
  show ?case
    by (cases x) (simp_all add: Cons Let_def)
qed

lemma reduceLogs_skips_null:
  "reduceLogs now rnd k acc (filter (\<lambda>s. s \<noteq> None) ts) = reduceLogs now rnd k acc ts"
proof (induction ts arbitrary: k acc)
  case Nil
  show ?case by simp
next
  case (Cons x ts)
  show ?case
    using Cons by (cases x) (simp_all add: Let_def)
qed

text \<open>The number of passes of the inner loop for one element of \<^verbatim>\<open>trafficData\<close>.\<close>

lemma reduceLogs_length:
  "length (fst (reduceLogs now rnd k acc ts)) =
     length acc +
     (\<Sum>x\<leftarrow>ts. case x of None \<Rightarrow> 0
                | Some t \<Rightarrow> nat (orZero (inbound t) + orZero (outbound t)))"
proof (induction ts arbitrary: k acc)
  case Nil
  show ?case by simp
next
  case (Cons x ts)
  show ?case
    by (cases x) (simp_all add: Cons Let_def logsLoop_length)
qed

lemma reduceLogs_members:
  "e \<in> set (fst (reduceLogs now rnd k acc ts)) \<Longrightarrow>
     e \<in> set acc \<or> (\<exists>j t. k \<le> j \<and> Some t \<in> set ts \<and> e = fst (makeLog now rnd j t))"
proof (induction ts arbitrary: k acc)
  case Nil
  then show ?case by simp
next
  case (Cons x ts)
  show ?case
  proof (cases x)
    case None
    then show ?thesis using Cons.IH [of k acc] Cons.prems by auto
  next
    case (Some t)
    let ?r = "logsLoop now rnd t (orZero (inbound t) + orZero (outbound t)) 0 k []"
    have "e \<in> set (fst (reduceLogs now rnd (snd ?r) (acc @ fst ?r) ts))"
      using Cons.prems Some by (simp add: Let_def)
    then have "e \<in> set (acc @ fst ?r) \<or>
        (\<exists>j u. snd ?r \<le> j \<and> Some u \<in> set ts \<and> e = fst (makeLog now rnd j u))"
      by (rule Cons.IH)
    moreover have "e \<in> set (fst ?r) \<Longrightarrow> \<exists>j. k \<le> j \<and> e = fst (makeLog now rnd j t)"
      using logsLoop_members [of e now rnd t _ 0 k "[]"] by simp
    moreover have "k \<le> snd ?r"
      by (rule logsLoop_draws_mono)
    ultimately show ?thesis
      using Some by (auto intro: order_trans)
  qed
qed


lemma length_maliciousTypes: "length maliciousTypes = 9"
  by (simp add: maliciousTypes_def)

lemma types_apart:
  "normalType \<notin> set maliciousTypes" "newPatternType \<notin> set maliciousTypes"
  "normalType \<noteq> newPatternType"
  by (simp_all add: maliciousTypes_def malicious_def normalType_def newPatternType_def)

text \<open>At the double that the literal 0.6 denotes the type is a malicious one.\<close>

lemma chooseType_at_threshold:
  "chooseType (\<lambda>i. if i = 0 then 5404319552844595 / 2 ^ 53 else 5 / 8) 0 =
     (Some (malicious ''(Malware)''), 2)"
  by (simp add: chooseType_def thresholds
      randomFloor_def round_eval elemAt_def maliciousTypes_def)

lemma chooseType_cases:
  assumes "isDouble (rnd (k + 1))" "0 \<le> rnd (k + 1)" "rnd (k + 1) < 1"
  shows "(fst (chooseType rnd k) = Some normalType \<longleftrightarrow> rnd k < roundDouble (6 / 10)) \<and>
         ((\<exists>m \<in> set maliciousTypes. fst (chooseType rnd k) = Some m) \<longleftrightarrow>
            roundDouble (6 / 10) \<le> rnd k \<and> rnd k < roundDouble (9 / 10)) \<and>
         (fst (chooseType rnd k) = Some newPatternType \<longleftrightarrow> roundDouble (9 / 10) \<le> rnd k)"
proof -
  have order: "roundDouble (6 / 10) < roundDouble (9 / 10)"
    by (simp add: thresholds)
  have r: "0 \<le> randomFloor rnd (k + 1) (int (length maliciousTypes)) \<and>
           randomFloor rnd (k + 1) (int (length maliciousTypes)) < int (length maliciousTypes)"
    using assms by (intro randomFloor_range) (simp_all add: length_maliciousTypes)
  then obtain m where m:
    "elemAt maliciousTypes (randomFloor rnd (k + 1) (int (length maliciousTypes))) = Some m"
    "m \<in> set maliciousTypes"
    using elemAt_member by blast
  have m_apart: "m \<noteq> normalType" "m \<noteq> newPatternType"
    using m(2) types_apart by auto
  consider (normal) "rnd k < roundDouble (6 / 10)"
    | (malicious) "roundDouble (6 / 10) \<le> rnd k" "rnd k < roundDouble (9 / 10)"
    | (novel) "roundDouble (9 / 10) \<le> rnd k"
    by linarith
  then show ?thesis
  proof cases
    case normal
    then have "fst (chooseType rnd k) = Some normalType"
      by (simp add: chooseType_def)
    then show ?thesis
      using normal order types_apart by auto
  next
    case malicious
    then have "fst (chooseType rnd k) = Some m"
      using m(1) by (simp add: chooseType_def)
    then show ?thesis
      using malicious m(2) m_apart by auto
  next
    case novel
    then have "\<not> rnd k < roundDouble (6 / 10)" "\<not> rnd k < roundDouble (9 / 10)"
      using order by simp_all
    then have "fst (chooseType rnd k) = Some newPatternType"
      by (simp add: chooseType_def)
    then show ?thesis
      using novel order types_apart by auto
  qed
qed

lemma updateLogs_take:
  assumes "length prevLogs \<le> 100"
  shows "updateLogs now rnd k trafficData prevLogs =
     take 100 (fst (generateLogData now rnd k (sliceLast 1 trafficData) (Some [])) @ prevLogs)"
  using assms by (simp add: updateLogs_def Let_def sliceFirst_def)

lemma updateLogs_length:
  "length prevLogs \<le> 100 \<Longrightarrow> length (updateLogs now rnd k trafficData prevLogs) \<le> 100"
  by (simp add: updateLogs_take)

lemma logRun_length:
  "length s \<le> 100 \<Longrightarrow> length (logRun ticks s) \<le> 100"
proof (induction ticks s rule: logRun.induct)
  case (1 s)
  then show ?case by simp
next
  case (2 now rnd k trafficData ts s)
  then show ?case by (simp add: updateLogs_length)
qed

lemma first_sample:
  "elemAt (fst (generateTrafficData now rnd k None)) 0 =
     Some \<lparr>time = Some (now - 58000),
           inbound = Some (randomFloor rnd k 30),
           outbound = Some (randomFloor rnd (k + 1) 30)\<rparr>"
proof -
  have none: "generateTrafficData now rnd k None = generateTrafficData now rnd k (Some 30)"
    by (simp add: generateTrafficData_def)
  have len: "length (fst (generateTrafficData now rnd k (Some 30))) = 30"
    by (simp add: generateTrafficData_length)
  then have "0 < length (fst (generateTrafficData now rnd k (Some 30)))" by simp
  then have "fst (generateTrafficData now rnd k (Some 30)) ! 0 =
           \<lparr>time = Some (now - (30 - 1 - int 0) * 2000),
            inbound = Some (randomFloor rnd (k + 2 * 0) 30),
            outbound = Some (randomFloor rnd (k + 2 * 0 + 1) 30)\<rparr>"
    by (rule generateTrafficData_nth)
  then show ?thesis
    using len by (simp add: none elemAt_def)
qed

lemma updateTrafficData_closed:
  "updateTrafficData now rnd k prevData =
     filter isTraffic (sliceLast 29 prevData) @
       [Some \<lparr>time = Some (now - 58000),
               inbound = Some (randomFloor rnd k 30),
               outbound = Some (randomFloor rnd (k + 1) 30)\<rparr>]"
  by (simp add: updateTrafficData_def first_sample isTraffic_def)

lemma updateTrafficData_length:
  "length (updateTrafficData now rnd k prevData) \<le> 30"
proof -
  have "length (filter isTraffic (sliceLast 29 prevData)) \<le> length (sliceLast 29 prevData)"
    by (rule length_filter_le)
  moreover have "length (sliceLast 29 prevData) \<le> 29"
    by (simp add: sliceLast_def)
  ultimately have "length (filter isTraffic (sliceLast 29 prevData)) \<le> 29"
    by (rule le_trans)
  then show ?thesis
    by (simp add: updateTrafficData_closed)
qed

lemma updateTrafficData_typed:
  "x \<in> set (updateTrafficData now rnd k prevData) \<Longrightarrow> isTraffic x"
  by (auto simp: updateTrafficData_closed isTraffic_def)

lemma trafficRun_typed:
  "\<forall>x \<in> set s. isTraffic x \<Longrightarrow> \<forall>x \<in> set (trafficRun ticks s). isTraffic x"
proof (induction ticks s rule: trafficRun.induct)
  case (1 s)
  then show ?case by simp
next
  case (2 now rnd k ts s)
  show ?case
    using "2.IH" updateTrafficData_typed by auto
qed

lemma trafficRun_length:
  "length s \<le> 30 \<Longrightarrow> length (trafficRun ticks s) \<le> 30"
proof (induction ticks s rule: trafficRun.induct)
  case (1 s)
  then show ?case by simp
next
  case (2 now rnd k ts s)
  then show ?case by (simp add: updateTrafficData_length)
qed

subsection \<open>The traffic generator\<close>

text \<open>
  C5. For a count of at least 0 the traffic generator returns exactly that many samples;
  sample \<open>i\<close> carries the time \<open>now - (count - 1 - i) * 2000\<close>, so the times increase
  strictly, two neighbours are exactly 2000 milliseconds apart and the last one is the
  clock reading; a count of 0 or less gives the empty array, and a call without a count
  is a call with 30.
\<close>

theorem generateTrafficData_count_and_times:
  "(let xs = fst (generateTrafficData now rnd k (Some count)) in
      (0 \<le> count \<longrightarrow> int (length xs) = count) \<and>
      (\<forall>i < length xs. time (xs ! i) = Some (now - (count - 1 - int i) * 2000)) \<and>
      (\<forall>i j. i < j \<and> j < length xs \<longrightarrow>
         (\<exists>s t. time (xs ! i) = Some s \<and> time (xs ! j) = Some t \<and> s < t)) \<and>
      (\<forall>i. Suc i < length xs \<longrightarrow>
         (\<exists>t. time (xs ! i) = Some t \<and> time (xs ! Suc i) = Some (t + 2000))) \<and>
      (xs \<noteq> [] \<longrightarrow> time (last xs) = Some now) \<and>
      (count \<le> 0 \<longrightarrow> xs = [])) \<and>
   generateTrafficData now rnd k None = generateTrafficData now rnd k (Some 30)"
proof -
  let ?xs = "fst (generateTrafficData now rnd k (Some count))"
  have len: "length ?xs = nat count"
    by (simp add: generateTrafficData_length)
  have nth: "\<And>i. i < length ?xs \<Longrightarrow> time (?xs ! i) = Some (now - (count - 1 - int i) * 2000)"
    by (simp add: generateTrafficData_nth)
  have a: "0 \<le> count \<longrightarrow> int (length ?xs) = count"
    using len by simp
  have b: "\<forall>i < length ?xs. time (?xs ! i) = Some (now - (count - 1 - int i) * 2000)"
    using nth by blast
  have c: "\<forall>i j. i < j \<and> j < length ?xs \<longrightarrow>
         (\<exists>s t. time (?xs ! i) = Some s \<and> time (?xs ! j) = Some t \<and> s < t)"
  proof (intro allI impI)
    fix i j assume ij: "i < j \<and> j < length ?xs"
    then have "time (?xs ! i) = Some (now - (count - 1 - int i) * 2000)"
      and "time (?xs ! j) = Some (now - (count - 1 - int j) * 2000)"
      using nth by simp_all
    moreover have "now - (count - 1 - int i) * 2000 < now - (count - 1 - int j) * 2000"
      using ij by simp
    ultimately show "\<exists>s t. time (?xs ! i) = Some s \<and> time (?xs ! j) = Some t \<and> s < t"
      by blast
  qed
  have d: "\<forall>i. Suc i < length ?xs \<longrightarrow>
         (\<exists>t. time (?xs ! i) = Some t \<and> time (?xs ! Suc i) = Some (t + 2000))"
  proof (intro allI impI)
    fix i assume "Suc i < length ?xs"
    then have "time (?xs ! i) = Some (now - (count - 1 - int i) * 2000)"
      and "time (?xs ! Suc i) = Some (now - (count - 1 - int (Suc i)) * 2000)"
      using nth by simp_all
    then show "\<exists>t. time (?xs ! i) = Some t \<and> time (?xs ! Suc i) = Some (t + 2000)"
      by simp
  qed
  have e: "?xs \<noteq> [] \<longrightarrow> time (last ?xs) = Some now"
  proof
    assume ne: "?xs \<noteq> []"
    then have pos: "0 < length ?xs" by simp
    have "last ?xs = ?xs ! (length ?xs - 1)"
      using ne by (rule last_conv_nth)
    moreover have "time (?xs ! (length ?xs - 1)) = Some (now - (count - 1 - int (length ?xs - 1)) * 2000)"
      using pos nth by simp
    moreover have "int (length ?xs - 1) = count - 1"
      using pos len by simp
    ultimately show "time (last ?xs) = Some now" by simp
  qed
  have f: "count \<le> 0 \<longrightarrow> ?xs = []"
  proof
    assume "count \<le> 0"
    then have "length ?xs = 0" using len by simp
    then show "?xs = []" by simp
  qed
  have g: "generateTrafficData now rnd k None = generateTrafficData now rnd k (Some 30)"
    by (simp add: generateTrafficData_def)
  show ?thesis
    unfolding Let_def using a b c d e f g by blast
qed

theorem generateTrafficData_count_and_times_witness:
  "int (length (fst (generateTrafficData 10000 (\<lambda>_. 1 / 2) 0 (Some 3)))) = 3 \<and>
   time (last (fst (generateTrafficData 10000 (\<lambda>_. 1 / 2) 0 (Some 3)))) = Some 10000 \<and>
   map time (fst (generateTrafficData 10000 (\<lambda>_. 1 / 2) 0 (Some 3))) =
     [Some 6000, Some 8000, Some 10000] \<and>
   fst (generateTrafficData 10000 (\<lambda>_. 1 / 2) 0 (Some 0)) = []"
proof -
  have ev: "fst (generateTrafficData 10000 (\<lambda>_. 1 / 2) 0 (Some 3)) =
    [\<lparr>time = Some 6000, inbound = Some 15, outbound = Some 15\<rparr>,
     \<lparr>time = Some 8000, inbound = Some 15, outbound = Some 15\<rparr>,
     \<lparr>time = Some 10000, inbound = Some 15, outbound = Some 15\<rparr>]"
    by (simp add: generateTrafficData_def trafficLoop.simps randomFloor_def round_eval)
  have ne: "fst (generateTrafficData 10000 (\<lambda>_. 1 / 2) 0 (Some 3)) \<noteq> []"
    by (simp add: ev)
  show ?thesis
    using generateTrafficData_count_and_times [where now = 10000 and rnd = "\<lambda>_. 1 / 2" and k = 0 and count = 3]
      generateTrafficData_count_and_times [where now = 10000 and rnd = "\<lambda>_. 1 / 2" and k = 0 and count = 0] ne
    by (simp add: Let_def ev)
qed

text \<open>
  C6. When every draw is a double in [0, 1), sample \<open>i\<close> of the traffic generator has an
  inbound and an outbound volume that are integers from 0 to 29, each computed from a
  draw of its own: the inbound volume from draw \<open>2 i\<close> of the call and the outbound
  volume from draw \<open>2 i + 1\<close>.
\<close>

theorem generateTrafficData_volumes:
  assumes draws: "\<forall>i. isDouble (rnd i) \<and> 0 \<le> rnd i \<and> rnd i < 1"
    and i: "i < length (fst (generateTrafficData now rnd k count))"
  shows "\<exists>a b. inbound (fst (generateTrafficData now rnd k count) ! i) = Some a \<and>
           outbound (fst (generateTrafficData now rnd k count) ! i) = Some b \<and>
           a = randomFloor rnd (k + 2 * i) 30 \<and> b = randomFloor rnd (k + 2 * i + 1) 30 \<and>
           0 \<le> a \<and> a < 30 \<and> 0 \<le> b \<and> b < 30"
proof -
  obtain c where c: "generateTrafficData now rnd k count = generateTrafficData now rnd k (Some c)"
    by (cases count) (auto simp: generateTrafficData_def)
  have nth: "fst (generateTrafficData now rnd k count) ! i =
           \<lparr>time = Some (now - (c - 1 - int i) * 2000),
            inbound = Some (randomFloor rnd (k + 2 * i) 30),
            outbound = Some (randomFloor rnd (k + 2 * i + 1) 30)\<rparr>"
    using i unfolding c by (rule generateTrafficData_nth)
  have "0 \<le> randomFloor rnd (k + 2 * i) 30 \<and> randomFloor rnd (k + 2 * i) 30 < 30"
    using draws by (intro randomFloor_range) simp_all
  moreover have "0 \<le> randomFloor rnd (k + 2 * i + 1) 30 \<and> randomFloor rnd (k + 2 * i + 1) 30 < 30"
    using draws by (intro randomFloor_range) simp_all
  ultimately show ?thesis
    by (simp add: nth)
qed

theorem generateTrafficData_volumes_witness:
  "inbound (fst (generateTrafficData 10000
      (\<lambda>i. if even i then 2552039788843281 / 2 ^ 52 else 1 / 4) 0 None) ! 4) = Some 17 \<and>
   outbound (fst (generateTrafficData 10000
      (\<lambda>i. if even i then 2552039788843281 / 2 ^ 52 else 1 / 4) 0 None) ! 4) = Some 7"
proof -
  let ?rnd = "\<lambda>i::nat. if even i then 2552039788843281 / 2 ^ 52 else 1 / 4 :: rat"
  have d1: "isDouble (2552039788843281 / 2 ^ 52)"
    by (simp add: isDouble_def round_eval)
  have d2: "isDouble (1 / 4)"
    by (simp add: isDouble_def round_eval)
  have draws: "\<forall>i. isDouble (?rnd i) \<and> 0 \<le> ?rnd i \<and> ?rnd i < 1"
    using d1 d2 by simp
  have i: "4 < length (fst (generateTrafficData 10000 ?rnd 0 None))"
    by (simp add: generateTrafficData_length)
  have a: "randomFloor ?rnd (0 + 2 * 4) 30 = 17"
    by (simp add: randomFloor_def round_eval)
  have b: "randomFloor ?rnd (0 + 2 * 4 + 1) 30 = 7"
    by (simp add: randomFloor_def round_eval)
  show ?thesis
    using generateTrafficData_volumes [OF draws i] a b by auto
qed

subsection \<open>The flow generator\<close>

text \<open>
  C7. The flow generator returns exactly 50 pairs; the country list has 10 distinct
  codes, and when every draw is a double in [0, 1) both codes of every pair are members
  of it.
\<close>

theorem generateFlowData_fifty_pairs:
  "length (fst (generateFlowData rnd k)) = 50 \<and>
   length countries = 10 \<and> distinct countries \<and>
   ((\<forall>i. isDouble (rnd i) \<and> 0 \<le> rnd i \<and> rnd i < 1) \<longrightarrow>
    (\<forall>p \<in> set (fst (generateFlowData rnd k)).
       \<exists>s e. start p = Some s \<and> end' p = Some e \<and> s \<in> set countries \<and> e \<in> set countries))"
proof -
  have len: "length (fst (generateFlowData rnd k)) = 50"
    by (simp add: generateFlowData_def flowLoop_closed)
  have dist: "distinct countries"
    by (simp add: countries_def ascii_def)
  have mem: "\<exists>s e. start p = Some s \<and> end' p = Some e \<and> s \<in> set countries \<and> e \<in> set countries"
    if draws: "\<forall>i. isDouble (rnd i) \<and> 0 \<le> rnd i \<and> rnd i < 1"
      and p: "p \<in> set (fst (generateFlowData rnd k))" for p
  proof -
    obtain m where p_eq:
      "p = \<lparr>start = elemAt countries (randomFloor rnd (k + 2 * m) (int (length countries))),
            end' = elemAt countries (randomFloor rnd (k + 2 * m + 1) (int (length countries)))\<rparr>"
      using p by (auto simp: generateFlowData_def flowLoop_closed)
    have r1: "0 \<le> randomFloor rnd (k + 2 * m) (int (length countries)) \<and>
              randomFloor rnd (k + 2 * m) (int (length countries)) < int (length countries)"
      using draws by (intro randomFloor_range) (simp_all add: length_countries)
    have r2: "0 \<le> randomFloor rnd (k + 2 * m + 1) (int (length countries)) \<and>
              randomFloor rnd (k + 2 * m + 1) (int (length countries)) < int (length countries)"
      using draws by (intro randomFloor_range) (simp_all add: length_countries)
    obtain s where s: "elemAt countries (randomFloor rnd (k + 2 * m) (int (length countries))) = Some s"
        "s \<in> set countries"
      using elemAt_member r1 by blast
    obtain e where e: "elemAt countries (randomFloor rnd (k + 2 * m + 1) (int (length countries))) = Some e"
        "e \<in> set countries"
      using elemAt_member r2 by blast
    show ?thesis
      using s e by (simp add: p_eq)
  qed
  show ?thesis
    using len length_countries dist mem by blast
qed

theorem generateFlowData_fifty_pairs_witness:
  "length (fst (generateFlowData (\<lambda>i. if even i then 0 else roundDouble (7 / 10)) 0)) = 50 \<and>
   start (hd (fst (generateFlowData (\<lambda>i. if even i then 0 else roundDouble (7 / 10)) 0)))
     \<in> Some ` set countries \<and>
   end' (hd (fst (generateFlowData (\<lambda>i. if even i then 0 else roundDouble (7 / 10)) 0)))
     \<in> Some ` set countries"
proof -
  let ?rnd = "\<lambda>i::nat. if even i then 0 else roundDouble (7 / 10)"
  let ?xs = "fst (generateFlowData ?rnd 0)"
  have d0: "isDouble 0"
    by (simp add: isDouble_def roundDouble_zero)
  have v: "roundDouble (7 / 10) = 3152519739159347 / 2 ^ 52"
    by (simp add: round_eval)
  have d7: "isDouble (roundDouble (7 / 10))"
    unfolding v by (simp add: isDouble_def round_eval)
  have draws: "\<forall>i. isDouble (?rnd i) \<and> 0 \<le> ?rnd i \<and> ?rnd i < 1"
    using d0 d7 by (simp add: v)
  have "length ?xs = 50"
    using generateFlowData_fifty_pairs [of ?rnd 0] by simp
  then have "?xs \<noteq> []" by auto
  then have hd_in: "hd ?xs \<in> set ?xs" by simp
  have "\<forall>p \<in> set ?xs.
       \<exists>s e. start p = Some s \<and> end' p = Some e \<and> s \<in> set countries \<and> e \<in> set countries"
    using generateFlowData_fifty_pairs [of ?rnd 0] draws by blast
  then have "\<exists>s e. start (hd ?xs) = Some s \<and> end' (hd ?xs) = Some e \<and> s \<in> set countries \<and> e \<in> set countries"
    using hd_in by blast
  then show ?thesis
    using \<open>length ?xs = 50\<close> by auto
qed

subsection \<open>The log synthesizer\<close>

text \<open>
  C8. With an empty list of samples the synthesizer returns the existing history as it
  is, and draws nothing.
\<close>

theorem generateLogData_no_samples:
  "generateLogData now rnd k [] (Some existingHistory) = (existingHistory, k)"
  by (simp add: generateLogData_def)

text \<open>
  C1 (as the code has it). The synthesizer returns the existing history first and the
  newly generated entries after it: new entries are appended, and the entries generated
  are those of a call with an empty history. The newest-first order of the displayed
  history is made by the caller, which passes an empty history and puts the result in
  front of its own state (\<open>updateLogs\<close>).
\<close>

theorem generateLogData_appends_new_entries:
  "generateLogData now rnd k samples (Some existingHistory) =
     (existingHistory @ fst (generateLogData now rnd k samples (Some [])),
      snd (generateLogData now rnd k samples (Some [])))"
  by (simp add: generateLogData_def Let_def)

text \<open>
  C1 as written fails: with one existing entry and one sample of volume 1, at the draws
  that are all 0, the existing entry of time 1 comes first and the new entry of time 7
  comes last.
\<close>

theorem generateLogData_prepend_counterexample:
  "fst (generateLogData 0 (\<lambda>_. 0) 0
          [Some \<lparr>time = Some 7, inbound = Some 1, outbound = Some 0\<rparr>]
          (Some [\<lparr>timestamp = 1, sourceIP = ascii ''10.0.0.1'', sourcePort = 80,
                   destinationIP = ascii ''10.0.0.2'', destinationPort = 443,
                   protocol = Some (ascii ''TCP''), type = Some normalType,
                   trafficVolume = 5\<rparr>])) =
     [\<lparr>timestamp = 1, sourceIP = ascii ''10.0.0.1'', sourcePort = 80,
       destinationIP = ascii ''10.0.0.2'', destinationPort = 443,
       protocol = Some (ascii ''TCP''), type = Some normalType, trafficVolume = 5\<rparr>,
      \<lparr>timestamp = 7, sourceIP = ascii ''0.0.0.0'', sourcePort = 0,
       destinationIP = ascii ''0.0.0.0'', destinationPort = 0,
       protocol = Some (ascii ''TCP''), type = Some normalType, trafficVolume = 0\<rparr>]"
  by (simp add: generateLogData_def Let_def orZero_def logsLoop.simps makeLog_def
      chooseType_def randomIP_def randomFloor_def thresholds roundDouble_zero
      numberToString_def digits.simps elemAt_def protocols_def ascii_def)

text \<open>
  C2. For samples that are all well formed (present, with both volumes present and not
  negative) the synthesizer adds exactly inbound + outbound entries per sample to the
  history; a single sample with inbound 3 and outbound 2 and an empty history gives
  exactly 5 entries.
\<close>

theorem generateLogData_emits_inbound_plus_outbound:
  "((\<forall>s \<in> set samples. \<exists>t a b. s = Some t \<and> inbound t = Some a \<and> outbound t = Some b \<and>
        0 \<le> a \<and> 0 \<le> b) \<longrightarrow>
    int (length (fst (generateLogData now rnd k samples (Some existingHistory)))) =
      int (length existingHistory) +
      (\<Sum>s\<leftarrow>samples. case s of None \<Rightarrow> 0
                      | Some t \<Rightarrow> the (inbound t) + the (outbound t))) \<and>
   length (fst (generateLogData now rnd k
                  [Some \<lparr>time = d, inbound = Some 3, outbound = Some 2\<rparr>] (Some []))) = 5"
proof -
  have sum: "int (\<Sum>x\<leftarrow>samples. case x of None \<Rightarrow> 0
                | Some t \<Rightarrow> nat (orZero (inbound t) + orZero (outbound t))) =
             (\<Sum>s\<leftarrow>samples. case s of None \<Rightarrow> 0
                      | Some t \<Rightarrow> the (inbound t) + the (outbound t))"
    if "\<forall>s \<in> set samples. \<exists>t a b. s = Some t \<and> inbound t = Some a \<and> outbound t = Some b \<and>
        0 \<le> a \<and> 0 \<le> b"
    using that
  proof (induction samples)
    case Nil
    show ?case by simp
  next
    case (Cons s samples)
    then obtain t a b where s: "s = Some t" "inbound t = Some a" "outbound t = Some b"
        "0 \<le> a" "0 \<le> b"
      by auto
    have "int (nat (orZero (inbound t) + orZero (outbound t))) = a + b"
      using s by (simp add: orZero_def)
    then show ?case
      using Cons s by simp
  qed
  have five: "length (fst (generateLogData now rnd k
                  [Some \<lparr>time = d, inbound = Some 3, outbound = Some 2\<rparr>] (Some []))) = 5"
    by (simp add: generateLogData_def logsLoop_length orZero_def)
  have len: "int (length (fst (generateLogData now rnd k samples (Some existingHistory)))) =
      int (length existingHistory) +
      int (\<Sum>x\<leftarrow>samples. case x of None \<Rightarrow> 0
                | Some t \<Rightarrow> nat (orZero (inbound t) + orZero (outbound t)))"
    by (simp add: generateLogData_def Let_def reduceLogs_length)
  show ?thesis
  proof (intro conjI impI)
    assume "\<forall>s \<in> set samples. \<exists>t a b. s = Some t \<and> inbound t = Some a \<and>
        outbound t = Some b \<and> 0 \<le> a \<and> 0 \<le> b"
    then show "int (length (fst (generateLogData now rnd k samples (Some existingHistory)))) =
      int (length existingHistory) +
      (\<Sum>s\<leftarrow>samples. case s of None \<Rightarrow> 0
                      | Some t \<Rightarrow> the (inbound t) + the (outbound t))"
      using len sum by simp
  next
    show "length (fst (generateLogData now rnd k
                  [Some \<lparr>time = d, inbound = Some 3, outbound = Some 2\<rparr>] (Some []))) = 5"
      by (rule five)
  qed
qed

theorem generateLogData_emits_inbound_plus_outbound_witness:
  "int (length (fst (generateLogData 0 (\<lambda>_. 1 / 2) 0
      [Some \<lparr>time = Some 4000, inbound = Some 2, outbound = Some 1\<rparr>,
       Some \<lparr>time = Some 6000, inbound = Some 0, outbound = Some 4\<rparr>] (Some [])))) = 7"
proof -
  let ?samples = "[Some \<lparr>time = Some 4000, inbound = Some 2, outbound = Some 1\<rparr>,
       Some \<lparr>time = Some 6000, inbound = Some 0, outbound = Some (4::int)\<rparr>]"
  have wf: "\<forall>s \<in> set ?samples. \<exists>t a b. s = Some t \<and> inbound t = Some a \<and> outbound t = Some b \<and>
        0 \<le> a \<and> 0 \<le> b"
    by simp
  show ?thesis
    using generateLogData_emits_inbound_plus_outbound
      [where samples = ?samples and now = 0 and rnd = "\<lambda>_. 1 / 2" and k = 0
        and existingHistory = "[]"] wf
    by simp
qed

text \<open>
  C9. A null or missing sample is skipped: the result, and the number of draws, is that
  of the same list with the null samples removed. The function is total, no sample
  makes it fail.
\<close>

theorem generateLogData_skips_null_samples:
  "generateLogData now rnd k samples existingHistory =
     generateLogData now rnd k (filter (\<lambda>s. s \<noteq> None) samples) existingHistory"
  by (simp only: generateLogData_def reduceLogs_skips_null)

text \<open>
  C10. A sample whose inbound (or outbound) volume is missing is treated as the same
  sample with that volume 0, wherever it stands in the list; alone, it yields as many
  entries as its other volume says.
\<close>

theorem generateLogData_missing_volume_is_zero:
  "generateLogData now rnd k (before @ Some (t\<lparr>inbound := None\<rparr>) # after) existingHistory =
     generateLogData now rnd k (before @ Some (t\<lparr>inbound := Some 0\<rparr>) # after) existingHistory \<and>
   generateLogData now rnd k (before @ Some (t\<lparr>outbound := None\<rparr>) # after) existingHistory =
     generateLogData now rnd k (before @ Some (t\<lparr>outbound := Some 0\<rparr>) # after) existingHistory \<and>
   length (fst (generateLogData now rnd k
                  [Some \<lparr>time = d, inbound = None, outbound = Some b\<rparr>] (Some []))) = nat b \<and>
   length (fst (generateLogData now rnd k
                  [Some \<lparr>time = d, inbound = Some a, outbound = None\<rparr>] (Some []))) = nat a"
proof -
  have inb: "reduceLogs now rnd j acc (Some (t\<lparr>inbound := None\<rparr>) # after) =
             reduceLogs now rnd j acc (Some (t\<lparr>inbound := Some 0\<rparr>) # after)" for j acc
    using logsLoop_time_only [of "t\<lparr>inbound := None\<rparr>" "t\<lparr>inbound := Some 0\<rparr>"]
    by (simp add: Let_def orZero_def)
  have outb: "reduceLogs now rnd j acc (Some (t\<lparr>outbound := None\<rparr>) # after) =
             reduceLogs now rnd j acc (Some (t\<lparr>outbound := Some 0\<rparr>) # after)" for j acc
    using logsLoop_time_only [of "t\<lparr>outbound := None\<rparr>" "t\<lparr>outbound := Some 0\<rparr>"]
    by (simp add: Let_def orZero_def)
  have l1: "length (fst (generateLogData now rnd k
                  [Some \<lparr>time = d, inbound = None, outbound = Some b\<rparr>] (Some []))) = nat b"
    by (simp add: generateLogData_def logsLoop_length orZero_def)
  have l2: "length (fst (generateLogData now rnd k
                  [Some \<lparr>time = d, inbound = Some a, outbound = None\<rparr>] (Some []))) = nat a"
    by (simp add: generateLogData_def logsLoop_length orZero_def)
  have c1: "generateLogData now rnd k (before @ Some (t\<lparr>inbound := None\<rparr>) # after)
              existingHistory =
            generateLogData now rnd k (before @ Some (t\<lparr>inbound := Some 0\<rparr>) # after)
              existingHistory"
    by (simp only: generateLogData_def reduceLogs_append inb)
  have c2: "generateLogData now rnd k (before @ Some (t\<lparr>outbound := None\<rparr>) # after)
              existingHistory =
            generateLogData now rnd k (before @ Some (t\<lparr>outbound := Some 0\<rparr>) # after)
              existingHistory"
    by (simp only: generateLogData_def reduceLogs_append outb)
  show ?thesis
    using c1 c2 l1 l2 by (intro conjI)
qed

text \<open>
  C3. The numbers 0.6 and 0.9 are the program's, the doubles nearest to 6/10 and 9/10,
  and a draw is a double in [0, 1). The malicious catalogue has 9 items. The thresholds
  cut [0, 1) into three intervals whose lengths sum to 1 and are 0.6, 0.3 and 0.1 up
  to the rounding of the two literals, less than \<open>2\<^sup>-\<^sup>5\<^sup>2\<close>. Every entry the
  synthesizer produces was built by one pass of the loop body from some sample, and
  with \<open>r\<close> the first draw of that pass its type is the normal one exactly when
  \<open>r < 0.6\<close>, one of the catalogue exactly when \<open>0.6 \<le> r < 0.9\<close>, and the new pattern
  exactly when \<open>0.9 \<le> r\<close>.
\<close>

theorem generateLogData_classification:
  "length maliciousTypes = 9 \<and>
   roundDouble (6 / 10) = 5404319552844595 / 2 ^ 53 \<and>
   roundDouble (9 / 10) = 8106479329266893 / 2 ^ 53 \<and>
   (roundDouble (6 / 10) - 0) + (roundDouble (9 / 10) - roundDouble (6 / 10)) +
     (1 - roundDouble (9 / 10)) = 1 \<and>
   \<bar>(roundDouble (6 / 10) - 0) - 6 / 10\<bar> < 1 / 2 ^ 52 \<and>
   \<bar>(roundDouble (9 / 10) - roundDouble (6 / 10)) - 3 / 10\<bar> < 1 / 2 ^ 52 \<and>
   \<bar>(1 - roundDouble (9 / 10)) - 1 / 10\<bar> < 1 / 2 ^ 52 \<and>
   ((\<forall>i. isDouble (rnd i) \<and> 0 \<le> rnd i \<and> rnd i < 1) \<and>
    e \<in> set (fst (generateLogData now rnd k samples (Some []))) \<longrightarrow>
    (\<exists>j t. k \<le> j \<and> Some t \<in> set samples \<and> e = fst (makeLog now rnd j t) \<and>
       (type e = Some normalType \<longleftrightarrow> rnd j < roundDouble (6 / 10)) \<and>
       ((\<exists>m \<in> set maliciousTypes. type e = Some m) \<longleftrightarrow>
          roundDouble (6 / 10) \<le> rnd j \<and> rnd j < roundDouble (9 / 10)) \<and>
       (type e = Some newPatternType \<longleftrightarrow> roundDouble (9 / 10) \<le> rnd j)))"
proof (intro conjI impI)
  show "length maliciousTypes = 9" by (rule length_maliciousTypes)
  show "roundDouble (6 / 10) = 5404319552844595 / 2 ^ 53" by (rule roundDouble_six_tenths)
  show "roundDouble (9 / 10) = 8106479329266893 / 2 ^ 53" by (rule roundDouble_nine_tenths)
  show "(roundDouble (6 / 10) - 0) + (roundDouble (9 / 10) - roundDouble (6 / 10)) +
     (1 - roundDouble (9 / 10)) = 1"
    by simp
  show "\<bar>(roundDouble (6 / 10) - 0) - 6 / 10\<bar> < 1 / 2 ^ 52"
    by (simp add: thresholds)
  show "\<bar>(roundDouble (9 / 10) - roundDouble (6 / 10)) - 3 / 10\<bar> < 1 / 2 ^ 52"
    by (simp add: thresholds)
  show "\<bar>(1 - roundDouble (9 / 10)) - 1 / 10\<bar> < 1 / 2 ^ 52"
    by (simp add: thresholds)
next
  assume a: "(\<forall>i. isDouble (rnd i) \<and> 0 \<le> rnd i \<and> rnd i < 1) \<and>
    e \<in> set (fst (generateLogData now rnd k samples (Some [])))"
  then have "e \<in> set (fst (reduceLogs now rnd k [] samples))"
    by (simp add: generateLogData_def Let_def)
  then obtain j t where jt: "k \<le> j" "Some t \<in> set samples" "e = fst (makeLog now rnd j t)"
    using reduceLogs_members [of e now rnd k "[]" samples] by auto
  have ty: "type e = fst (chooseType rnd j)"
    by (simp add: jt(3) makeLog_type)
  have "isDouble (rnd (j + 1))" "0 \<le> rnd (j + 1)" "rnd (j + 1) < 1"
    using a by simp_all
  then have "(type e = Some normalType \<longleftrightarrow> rnd j < roundDouble (6 / 10)) \<and>
       ((\<exists>m \<in> set maliciousTypes. type e = Some m) \<longleftrightarrow>
          roundDouble (6 / 10) \<le> rnd j \<and> rnd j < roundDouble (9 / 10)) \<and>
       (type e = Some newPatternType \<longleftrightarrow> roundDouble (9 / 10) \<le> rnd j)"
    unfolding ty by (rule chooseType_cases)
  then show "\<exists>j t. k \<le> j \<and> Some t \<in> set samples \<and> e = fst (makeLog now rnd j t) \<and>
       (type e = Some normalType \<longleftrightarrow> rnd j < roundDouble (6 / 10)) \<and>
       ((\<exists>m \<in> set maliciousTypes. type e = Some m) \<longleftrightarrow>
          roundDouble (6 / 10) \<le> rnd j \<and> rnd j < roundDouble (9 / 10)) \<and>
       (type e = Some newPatternType \<longleftrightarrow> roundDouble (9 / 10) \<le> rnd j)"
    using jt by blast
qed

theorem generateLogData_classification_witness:
  "\<exists>j t. (0::nat) \<le> j \<and>
      Some t \<in> set [Some \<lparr>time = Some 5, inbound = Some 1, outbound = Some 0\<rparr>] \<and>
      \<lparr>timestamp = 5, sourceIP = ascii ''128.128.128.128'', sourcePort = 32768,
        destinationIP = ascii ''128.128.128.128'', destinationPort = 32768,
        protocol = Some (ascii ''HTTPS''), type = Some (malicious ''(Brute Force)''),
        trafficVolume = 500\<rparr> =
        fst (makeLog 0 (\<lambda>i. if i = 0 then 5404319552844595 / 2 ^ 53 else 1 / 2) j t) \<and>
      roundDouble (6 / 10) \<le> (if j = 0 then 5404319552844595 / 2 ^ 53 else 1 / 2) \<and>
      (if j = 0 then 5404319552844595 / 2 ^ 53 else 1 / 2) < roundDouble (9 / 10)"
proof -
  let ?rnd = "\<lambda>i::nat. if i = 0 then 5404319552844595 / 2 ^ 53 else 1 / 2 :: rat"
  let ?e = "\<lparr>timestamp = 5, sourceIP = ascii ''128.128.128.128'', sourcePort = 32768,
        destinationIP = ascii ''128.128.128.128'', destinationPort = 32768,
        protocol = Some (ascii ''HTTPS''), type = Some (malicious ''(Brute Force)''),
        trafficVolume = 500\<rparr>"
  have d1: "isDouble (5404319552844595 / 2 ^ 53)"
    by (simp add: isDouble_def round_eval)
  have d2: "isDouble (1 / 2)"
    by (simp add: isDouble_def round_eval)
  have draws: "\<forall>i. isDouble (?rnd i) \<and> 0 \<le> ?rnd i \<and> ?rnd i < 1"
    using d1 d2 by simp
  have ev: "fst (generateLogData 0 ?rnd 0
      [Some \<lparr>time = Some 5, inbound = Some 1, outbound = Some 0\<rparr>] (Some [])) = [?e]"
    by (simp add: generateLogData_def Let_def orZero_def logsLoop.simps makeLog_def
      chooseType_def randomIP_def randomFloor_def thresholds round_eval
      numberToString_def digits.simps
      elemAt_def protocols_def maliciousTypes_def malicious_def ascii_def)
  have mem: "?e \<in> set (fst (generateLogData 0 ?rnd 0
      [Some \<lparr>time = Some 5, inbound = Some 1, outbound = Some 0\<rparr>] (Some [])))"
    by (simp only: ev) simp
  have mal: "\<exists>m \<in> set maliciousTypes. type ?e = Some m"
    by (simp add: maliciousTypes_def)
  show ?thesis
    using generateLogData_classification [where rnd = ?rnd and e = ?e and now = 0 and k = 0
        and samples = "[Some \<lparr>time = Some 5, inbound = Some 1, outbound = Some 0\<rparr>]"]
      draws mem mal
    by blast
qed

subsection \<open>The bounded buffers\<close>

text \<open>
  C4. Along every run of the timers from the empty states the log history has at most
  100 entries and the traffic window at most 30. The next step of the log table puts the
  new entries in front of the history and keeps the first 100 of the whole, so what is
  dropped is the end of the list, the entries that came in first; the next step of the
  traffic window keeps the last 29 samples and puts the new one behind them, so what is
  dropped is the front of the list, again the samples that came in first.
\<close>

theorem history_retention:
  "length (logRun logTicks []) \<le> 100 \<and>
   length (trafficRun trafficTicks []) \<le> 30 \<and>
   updateLogs now rnd k trafficData (logRun logTicks []) =
     take 100 (fst (generateLogData now rnd k (sliceLast 1 trafficData) (Some [])) @
               logRun logTicks []) \<and>
   updateTrafficData now rnd k (trafficRun trafficTicks []) =
     drop (length (trafficRun trafficTicks []) - 29) (trafficRun trafficTicks []) @
       [Some \<lparr>time = Some (now - 58000),
               inbound = Some (randomFloor rnd k 30),
               outbound = Some (randomFloor rnd (k + 1) 30)\<rparr>]"
proof -
  have l: "length (logRun logTicks []) \<le> 100"
    by (rule logRun_length) simp
  have t: "length (trafficRun trafficTicks []) \<le> 30"
    by (rule trafficRun_length) simp
  have typed: "\<forall>x \<in> set (trafficRun trafficTicks []). isTraffic x"
    by (rule trafficRun_typed) simp
  then have "\<forall>x \<in> set (sliceLast 29 (trafficRun trafficTicks [])). isTraffic x"
    unfolding sliceLast_def by (meson in_set_dropD)
  then have keep: "filter isTraffic (sliceLast 29 (trafficRun trafficTicks [])) =
                   sliceLast 29 (trafficRun trafficTicks [])"
    by simp
  have u: "updateTrafficData now rnd k (trafficRun trafficTicks []) =
     drop (length (trafficRun trafficTicks []) - 29) (trafficRun trafficTicks []) @
       [Some \<lparr>time = Some (now - 58000),
               inbound = Some (randomFloor rnd k 30),
               outbound = Some (randomFloor rnd (k + 1) 30)\<rparr>]"
    by (simp only: updateTrafficData_closed keep) (simp add: sliceLast_def)
  show ?thesis
    using l t updateLogs_take [OF l] u by (intro conjI)
qed

end
